theory Spec2Isabelle
  imports Main "HOL-Library.Multiset"
begin

section \<open>Timeline2GPX: the conversion pipeline of \<^verbatim>\<open>convert.py\<close>\<close>

text \<open>
  The embedding follows \<^verbatim>\<open>main\<close> from the point where the command line has been parsed
  and logging is configured (source lines 40 to 115). Exceptions are values of \<open>error\<close>,
  the effects of a run (existence checks, log calls, directory creation, opening the
  input, writing a GPX file) are the events of a trace, in the order the code performs
  them. The functions of the Python library that parse text (\<^verbatim>\<open>float\<close>,
  \<^verbatim>\<open>datetime.strptime\<close>) are parameters of the model; every theorem holds for all of them.
\<close>

subsection \<open>Python strings\<close>

text \<open>
  Text read from the JSON document is a list of Unicode code points (\<open>ustr\<close>); paths and
  log messages are Isabelle strings. The string functions are polymorphic in the
  character type and serve both.
\<close>

type_synonym ustr = "nat list"

text \<open>\<^verbatim>\<open>s.replace(old, new)\<close>: every non-overlapping occurrence, leftmost first.\<close>

fun replace :: "'c list \<Rightarrow> 'c list \<Rightarrow> 'c list \<Rightarrow> 'c list" where
  "replace [] old new = (if old = [] then new else [])"
| "replace (c # s) old new =
     (if old = [] then new @ c # replace s old new
      else if take (length old) (c # s) = old
        then new @ replace (drop (length old - 1) s) old new
      else c # replace s old new)"

definition endswith :: "'c list \<Rightarrow> 'c list \<Rightarrow> bool" where
  "endswith s suffix \<longleftrightarrow>
     length suffix \<le> length s \<and> drop (length s - length suffix) s = suffix"

text \<open>\<^verbatim>\<open>s.split(sep)\<close> for a separator of one character, as in \<^verbatim>\<open>split(",")\<close>.\<close>

fun split :: "'c list \<Rightarrow> 'c \<Rightarrow> 'c list list" where
  "split [] sep = [[]]"
| "split (c # s) sep =
     (if c = sep then [] # split s sep
      else (case split s sep of [] \<Rightarrow> [[c]] | p # ps \<Rightarrow> (c # p) # ps))"

text \<open>The code points for which \<^verbatim>\<open>str.isspace\<close> holds; \<^verbatim>\<open>s.strip()\<close> removes them at both ends.\<close>

definition isspace :: "nat \<Rightarrow> bool" where
  "isspace c \<longleftrightarrow>
     (0x09 \<le> c \<and> c \<le> 0x0D) \<or> (0x1C \<le> c \<and> c \<le> 0x20) \<or> c = 0x85 \<or> c = 0xA0 \<or>
     c = 0x1680 \<or> (0x2000 \<le> c \<and> c \<le> 0x200A) \<or> c = 0x2028 \<or> c = 0x2029 \<or>
     c = 0x202F \<or> c = 0x205F \<or> c = 0x3000"

definition strip :: "ustr \<Rightarrow> ustr" where
  "strip s = rev (dropWhile isspace (rev (dropWhile isspace s)))"

text \<open>\<^verbatim>\<open>str(n)\<close> for a natural number, and the format \<^verbatim>\<open>{n:05}\<close>: zero-padded to width 5.\<close>

definition digit_char :: "nat \<Rightarrow> char" where
  "digit_char d = char_of (48 + d)"

fun str_nat :: "nat \<Rightarrow> string" where
  "str_nat n = (if n < 10 then [digit_char n] else str_nat (n div 10) @ [digit_char (n mod 10)])"

declare str_nat.simps [simp del]

definition format_05 :: "nat \<Rightarrow> string" where
  "format_05 n = replicate (5 - length (str_nat n)) CHR ''0'' @ str_nat n"

subsection \<open>Dates and timestamps\<close>

text \<open>
  \<^verbatim>\<open>datetime.date\<close> and the aware \<^verbatim>\<open>datetime.datetime\<close> that \<^verbatim>\<open>strptime\<close> returns for a
  format with \<^verbatim>\<open>%z\<close>: the wall-clock fields and a fixed offset from UTC, in microseconds.
\<close>

record date =
  year :: int
  month :: int
  day :: int

record datetime = date +
  hour :: int
  minute :: int
  second :: int
  microsecond :: int
  utcoffset :: int

text \<open>\<^verbatim>\<open>t.date()\<close>: the calendar date of the wall-clock fields; the offset plays no part.\<close>

definition date_of :: "datetime \<Rightarrow> date" where
  "date_of t = \<lparr>year = year t, month = month t, day = day t\<rparr>"

text \<open>\<^verbatim>\<open>d1 < d2\<close> and \<^verbatim>\<open>d1 > d2\<close> on dates compare \<open>(year, month, day)\<close> lexicographically.\<close>

definition date_less :: "date \<Rightarrow> date \<Rightarrow> bool" where
  "date_less d1 d2 \<longleftrightarrow>
     year d1 < year d2 \<or> (year d1 = year d2 \<and>
       (month d1 < month d2 \<or> (month d1 = month d2 \<and> day d1 < day d2)))"

text \<open>\<^verbatim>\<open>d.toordinal()\<close>, the proleptic Gregorian day number, as the library computes it.\<close>

definition is_leap :: "int \<Rightarrow> bool" where
  "is_leap y \<longleftrightarrow> y mod 4 = 0 \<and> (y mod 100 \<noteq> 0 \<or> y mod 400 = 0)"

definition days_before_year :: "int \<Rightarrow> int" where
  "days_before_year y = (y - 1) * 365 + (y - 1) div 4 - (y - 1) div 100 + (y - 1) div 400"

definition days_before_month :: "int \<Rightarrow> int \<Rightarrow> int" where
  "days_before_month y m =
     sum_list (take (nat (m - 1)) [31, 28, 31, 30, 31, 30, 31, 31, 30, 31, 30, 31])
       + (if m > 2 \<and> is_leap y then 1 else 0)"

definition toordinal :: "date \<Rightarrow> int" where
  "toordinal d = days_before_year (year d) + days_before_month (year d) (month d) + day d"

text \<open>\<^verbatim>\<open>(d1 - d2).days\<close>.\<close>

definition days_between :: "date \<Rightarrow> date \<Rightarrow> int" where
  "days_between d1 d2 = toordinal d1 - toordinal d2"

text \<open>
  Aware timestamps compare by their instant: the microseconds since the start of day 0,
  less the offset. This is the key of the sort.
\<close>

definition utc_micros :: "datetime \<Rightarrow> int" where
  "utc_micros t =
     ((toordinal (date_of t) * 86400 + hour t * 3600 + minute t * 60 + second t) * 1000000
        + microsecond t) - utcoffset t"

subsection \<open>Data model\<close>

text \<open>The point dictionary built by the flattener.\<close>

record 'f point =
  time :: datetime
  latitude :: 'f
  longitude :: 'f

text \<open>
  The input document after \<^verbatim>\<open>json.load\<close>. A key may be absent (\<open>None\<close>); a key that is
  present holds a value of the JSON type the code expects. \<open>entry_point\<close> and
  \<open>entry_time\<close> are the keys \<^verbatim>\<open>"point"\<close> and \<^verbatim>\<open>"time"\<close> of an entry of a \<^verbatim>\<open>timelinePath\<close>.
\<close>

record path_entry =
  entry_point :: "ustr option"
  entry_time :: "ustr option"

record segment =
  startTime :: "ustr option"
  endTime :: "ustr option"
  timelinePath :: "path_entry list option"

record timeline =
  semanticSegments :: "segment list option"

text \<open>The parsed command line.\<close>

record args =
  arg_input :: string
  arg_output :: string
  arg_count :: int
  arg_days :: int
  arg_start :: "string option"
  arg_end :: "string option"

text \<open>
  The file system as the run sees it: which paths exist, and what \<^verbatim>\<open>json.load\<close> makes
  of a file (\<open>None\<close> when it is not JSON).
\<close>

record world =
  path_exists :: "string \<Rightarrow> bool"
  json_load :: "string \<Rightarrow> timeline option"

datatype error = KeyError | ValueError | JSONDecodeError

text \<open>
  The effects of a run. \<open>WriteGpx\<close> is \<^verbatim>\<open>tree.write\<close> in \<^verbatim>\<open>dump_gpx\<close>: the file holds one
  track point per point of the chunk, in order. \<open>LogDebug\<close> keeps the arguments of the
  per-segment debug message.
\<close>

datatype 'f event =
    CheckExists string
  | LogError string
  | LogInfo string
  | LogDebug datetime datetime nat
  | MakeDirs string
  | OpenRead string
  | WriteGpx string "'f point list"

subsection \<open>Coordinate parsing\<close>

text \<open>The string literal of \<^verbatim>\<open>split_latlng\<close>: the code points U+00C2 U+00B0.\<close>

definition degree_marker :: ustr where
  "degree_marker = [0xC2, 0xB0]"

definition comma :: nat where
  "comma = 0x2C"

definition split_latlng :: "(ustr \<Rightarrow> 'f option) \<Rightarrow> ustr \<Rightarrow> error + ('f \<times> 'f)" where
  "split_latlng float latlng =
     (case split (replace latlng degree_marker []) comma of
        [lat, lng] \<Rightarrow>
          (case float (strip lat) of
             None \<Rightarrow> Inl ValueError
           | Some x \<Rightarrow>
               (case float (strip lng) of
                  None \<Rightarrow> Inl ValueError
                | Some y \<Rightarrow> Inr (x, y)))
      | _ \<Rightarrow> Inl ValueError)"

subsection \<open>Writer\<close>

definition dump_gpx :: "'f point list \<Rightarrow> string \<Rightarrow> 'f event list" where
  "dump_gpx points output_file =
     [WriteGpx output_file points,
      LogInfo (''Dumped '' @ str_nat (length points) @ '' points to '' @ output_file)]"

definition output_name :: "string \<Rightarrow> nat \<Rightarrow> string" where
  "output_name output output_number =
     (if endswith output ''.gpx''
      then replace output ''.gpx'' (''_'' @ format_05 output_number @ ''.gpx'')
      else output @ ''_'' @ format_05 output_number @ ''.gpx'')"

text \<open>
  The closure \<^verbatim>\<open>dump\<close>. Its guard reads the enclosing list \<^verbatim>\<open>points\<close>, not its argument.
  The writer state is the counter \<^verbatim>\<open>output_number\<close> and the trace so far.
\<close>

definition dump ::
  "string \<Rightarrow> 'f point list \<Rightarrow> 'f point list \<Rightarrow> nat \<times> 'f event list \<Rightarrow> nat \<times> 'f event list" where
  "dump output points points_to_dump w =
     (case w of (output_number, evs) \<Rightarrow>
        if length points > 0
        then (output_number + 1,
              evs @ dump_gpx points_to_dump (output_name output output_number))
        else w)"

subsection \<open>Flattener\<close>

text \<open>The inner loop over one \<^verbatim>\<open>timelinePath\<close>; \<^verbatim>\<open>point["point"]\<close> is read before \<^verbatim>\<open>point["time"]\<close>.\<close>

fun path_points ::
  "(ustr \<Rightarrow> 'f option) \<Rightarrow> (ustr \<Rightarrow> datetime option) \<Rightarrow> path_entry list \<Rightarrow> error + 'f point list" where
  "path_points float strptime [] = Inr []"
| "path_points float strptime (e # es) =
     (case entry_point e of
        None \<Rightarrow> Inl KeyError
      | Some s \<Rightarrow>
     (case split_latlng float s of
        Inl err \<Rightarrow> Inl err
      | Inr (lat, lng) \<Rightarrow>
     (case entry_time e of
        None \<Rightarrow> Inl KeyError
      | Some ts \<Rightarrow>
     (case strptime ts of
        None \<Rightarrow> Inl ValueError
      | Some t \<Rightarrow>
     (case path_points float strptime es of
        Inl err \<Rightarrow> Inl err
      | Inr ps \<Rightarrow> Inr (\<lparr>time = t, latitude = lat, longitude = lng\<rparr> # ps))))))"

text \<open>
  The loop over the segments, with the list \<^verbatim>\<open>points\<close> and the trace as accumulators.
  \<open>strptime\<close> stands for \<^verbatim>\<open>datetime.strptime(_, "%Y-%m-%dT%H:%M:%S.%f%z")\<close>.
\<close>

fun flatten ::
  "(ustr \<Rightarrow> 'f option) \<Rightarrow> (ustr \<Rightarrow> datetime option) \<Rightarrow> segment list \<Rightarrow>
   'f point list \<Rightarrow> 'f event list \<Rightarrow> 'f event list \<times> (error + 'f point list)" where
  "flatten float strptime [] points evs = (evs, Inr points)"
| "flatten float strptime (seg # segs) points evs =
     (case startTime seg of
        None \<Rightarrow> (evs, Inl KeyError)
      | Some s \<Rightarrow>
     (case strptime s of
        None \<Rightarrow> (evs, Inl ValueError)
      | Some start_time \<Rightarrow>
     (case endTime seg of
        None \<Rightarrow> (evs, Inl KeyError)
      | Some e \<Rightarrow>
     (case strptime e of
        None \<Rightarrow> (evs, Inl ValueError)
      | Some end_time \<Rightarrow>
     (case timelinePath seg of
        None \<Rightarrow> flatten float strptime segs points evs
      | Some path \<Rightarrow>
          (let evs' = evs @ [LogDebug start_time end_time (length path)]
           in case path_points float strptime path of
                Inl err \<Rightarrow> (evs', Inl err)
              | Inr ps \<Rightarrow> flatten float strptime segs (points @ ps) evs'))))))"

subsection \<open>Sequencer\<close>

text \<open>\<^verbatim>\<open>points[start:i]\<close> for \<open>start \<le> i\<close>.\<close>

definition slice :: "'a list \<Rightarrow> nat \<Rightarrow> nat \<Rightarrow> 'a list" where
  "slice xs start i = take (i - start) (drop start xs)"

text \<open>
  The two date filters. The date argument is parsed when the test is evaluated
  (\<open>strpdate\<close> stands for \<^verbatim>\<open>datetime.strptime(_, "%Y-%m-%d").date()\<close>), so a malformed
  argument raises inside the loop.
\<close>

definition before_start :: "(string \<Rightarrow> date option) \<Rightarrow> args \<Rightarrow> 'f point \<Rightarrow> error + bool" where
  "before_start strpdate a p =
     (case arg_start a of
        None \<Rightarrow> Inr False
      | Some s \<Rightarrow>
          (case strpdate s of
             None \<Rightarrow> Inl ValueError
           | Some d \<Rightarrow> Inr (date_less (date_of (time p)) d)))"

definition after_end :: "(string \<Rightarrow> date option) \<Rightarrow> args \<Rightarrow> 'f point \<Rightarrow> error + bool" where
  "after_end strpdate a p =
     (case arg_end a of
        None \<Rightarrow> Inr False
      | Some s \<Rightarrow>
          (case strpdate s of
             None \<Rightarrow> Inl ValueError
           | Some d \<Rightarrow> Inr (date_less d (date_of (time p)))))"

text \<open>
  One iteration of the scan. The loop state is \<open>(start, output_number, trace)\<close>;
  \<open>Next\<close> goes on with the next index (after \<^verbatim>\<open>continue\<close> or at the end of the body),
  \<open>Break\<close> leaves the loop, \<open>Raise\<close> is an exception.
\<close>

datatype 'f flow =
    Next "nat \<times> nat \<times> 'f event list"
  | Break "nat \<times> nat \<times> 'f event list"
  | Raise error "nat \<times> nat \<times> 'f event list"

definition count_check ::
  "args \<Rightarrow> 'f point list \<Rightarrow> nat \<Rightarrow> nat \<times> nat \<times> 'f event list \<Rightarrow> nat \<times> nat \<times> 'f event list" where
  "count_check a points i st =
     (case st of (start, w) \<Rightarrow>
        if arg_count a > 0 \<and> int i - int start \<ge> arg_count a
        then (i, dump (arg_output a) points (slice points start i) w)
        else st)"

definition days_check ::
  "args \<Rightarrow> 'f point list \<Rightarrow> nat \<Rightarrow> nat \<times> nat \<times> 'f event list \<Rightarrow> nat \<times> nat \<times> 'f event list" where
  "days_check a points i st =
     (case st of (start, w) \<Rightarrow>
        if arg_days a > 0 \<and>
           days_between (date_of (time (points ! i))) (date_of (time (points ! start))) \<ge> arg_days a
        then (i, dump (arg_output a) points (slice points start i) w)
        else st)"

definition loop_body ::
  "(string \<Rightarrow> date option) \<Rightarrow> args \<Rightarrow> 'f point list \<Rightarrow> nat \<Rightarrow>
   nat \<times> nat \<times> 'f event list \<Rightarrow> 'f flow" where
  "loop_body strpdate a points i st =
     (case before_start strpdate a (points ! i) of
        Inl err \<Rightarrow> Raise err st
      | Inr True \<Rightarrow> Next (i, snd st)
      | Inr False \<Rightarrow>
          (case after_end strpdate a (points ! i) of
             Inl err \<Rightarrow> Raise err st
           | Inr True \<Rightarrow> Break st
           | Inr False \<Rightarrow> Next (days_check a points i (count_check a points i st))))"

text \<open>\<^verbatim>\<open>for i in range(1, len(points))\<close>, over the list of the indices still to visit.\<close>

fun scan ::
  "(string \<Rightarrow> date option) \<Rightarrow> args \<Rightarrow> 'f point list \<Rightarrow> nat list \<Rightarrow>
   nat \<times> nat \<times> 'f event list \<Rightarrow> error option \<times> nat \<times> nat \<times> 'f event list" where
  "scan strpdate a points [] st = (None, st)"
| "scan strpdate a points (i # is) st =
     (case loop_body strpdate a points i st of
        Next st' \<Rightarrow> scan strpdate a points is st'
      | Break st' \<Rightarrow> (None, st')
      | Raise err st' \<Rightarrow> (Some err, st'))"

text \<open>
  Lines 97 to 115: the stable sort by time, the scan, and the final \<^verbatim>\<open>dump(points[start:])\<close>,
  which an exception in the scan skips. The result is the exception, if any, and the trace.
\<close>

definition sequencer ::
  "(string \<Rightarrow> date option) \<Rightarrow> args \<Rightarrow> 'f point list \<Rightarrow> 'f event list \<Rightarrow>
   error option \<times> 'f event list" where
  "sequencer strpdate a unsorted evs =
     (let points = sort_key (\<lambda>x. utc_micros (time x)) unsorted
      in case scan strpdate a points [1..<length points] (0, 0, evs) of
           (Some err, start, w) \<Rightarrow> (Some err, snd w)
         | (None, start, w) \<Rightarrow>
             (None, snd (dump (arg_output a) points (drop start points) w)))"

subsection \<open>The run\<close>

text \<open>\<^verbatim>\<open>os.path.basename\<close> and \<^verbatim>\<open>os.path.dirname\<close> for paths with \<^verbatim>\<open>/\<close> as the separator.\<close>

definition basename :: "string \<Rightarrow> string" where
  "basename p = rev (takeWhile (\<lambda>c. c \<noteq> CHR ''/'') (rev p))"

definition dirname :: "string \<Rightarrow> string" where
  "dirname p =
     (let head = rev (dropWhile (\<lambda>c. c \<noteq> CHR ''/'') (rev p))
      in if head \<noteq> [] \<and> head \<noteq> replicate (length head) CHR ''/''
         then rev (dropWhile (\<lambda>c. c = CHR ''/'') (rev head))
         else head)"

definition main ::
  "(ustr \<Rightarrow> 'f option) \<Rightarrow> (ustr \<Rightarrow> datetime option) \<Rightarrow> (string \<Rightarrow> date option) \<Rightarrow>
   world \<Rightarrow> args \<Rightarrow> error option \<times> 'f event list" where
  "main float strptime strpdate fs a =
     (if path_exists fs (arg_output a)
      then (None, [CheckExists (arg_output a),
                   LogError (''Output file '' @ arg_output a @ '' already exists'')])
      else if \<not> path_exists fs (arg_input a)
      then (None, [CheckExists (arg_output a), CheckExists (arg_input a),
                   LogError (''Input file '' @ arg_input a @ '' does not exist'')])
      else
        (let evs0 = [CheckExists (arg_output a), CheckExists (arg_input a)]
               @ (if basename (arg_output a) \<noteq> arg_output a
                  then [MakeDirs (dirname (arg_output a))] else [])
               @ [OpenRead (arg_input a)]
         in case json_load fs (arg_input a) of
              None \<Rightarrow> (Some JSONDecodeError, evs0)
            | Some doc \<Rightarrow>
           (case semanticSegments doc of
              None \<Rightarrow> (Some KeyError, evs0)
            | Some semantic_segments \<Rightarrow>
                (let evs1 = evs0 @ [LogInfo (''Found '' @ str_nat (length semantic_segments)
                                             @ '' semantic segments'')]
                 in case flatten float strptime semantic_segments [] evs1 of
                      (evs2, Inl err) \<Rightarrow> (Some err, evs2)
                    | (evs2, Inr points) \<Rightarrow> sequencer strpdate a points evs2))))"

text \<open>What a trace says was written: the chunks, and the file names, in emission order.\<close>

fun emitted :: "'f event list \<Rightarrow> 'f point list list" where
  "emitted [] = []"
| "emitted (WriteGpx name chunk # evs) = chunk # emitted evs"
| "emitted (_ # evs) = emitted evs"

fun written_names :: "'f event list \<Rightarrow> string list" where
  "written_names [] = []"
| "written_names (WriteGpx name chunk # evs) = name # written_names evs"
| "written_names (_ # evs) = written_names evs"

text \<open>
  Two measures of an input document: the number of entries of all \<^verbatim>\<open>timelinePath\<close> arrays,
  and whether both timestamps of a segment are present and accepted by \<open>strptime\<close>.
\<close>

definition timeline_path_entries :: "segment list \<Rightarrow> nat" where
  "timeline_path_entries segs =
     sum_list (map (\<lambda>seg. case timelinePath seg of None \<Rightarrow> 0 | Some path \<Rightarrow> length path) segs)"

definition times_parse :: "(ustr \<Rightarrow> datetime option) \<Rightarrow> segment \<Rightarrow> bool" where
  "times_parse strptime seg \<longleftrightarrow>
     (case startTime seg of None \<Rightarrow> False | Some s \<Rightarrow> strptime s \<noteq> None) \<and>
     (case endTime seg of None \<Rightarrow> False | Some e \<Rightarrow> strptime e \<noteq> None)"

subsection \<open>An example input\<close>

text \<open>
  A document of two segments, a visit without a path and a path whose entries are taken at
  noon UTC on the given days of January 2024, with stand-ins for the library parsers that
  accept the texts of this example. They instantiate the theorems below at concrete
  inputs; the theorems themselves hold for every parser.
\<close>

definition ascii :: "string \<Rightarrow> ustr" where
  "ascii s = map of_char s"

definition ex_time :: "int \<Rightarrow> datetime" where
  "ex_time d =
     \<lparr>year = 2024, month = 1, day = d, hour = 12, minute = 0, second = 0, microsecond = 0,
      utcoffset = 0\<rparr>"

definition ex_stamp :: "nat \<Rightarrow> ustr" where
  "ex_stamp d = ascii ''2024-01-0'' @ [48 + d] @ ascii ''T12:00:00.000000+00:00''"

definition ex_strptime :: "ustr \<Rightarrow> datetime option" where
  "ex_strptime s =
     (if length s = 32 \<and> take 9 s = ascii ''2024-01-0'' \<and> 49 \<le> s ! 9 \<and> s ! 9 \<le> 57
         \<and> drop 10 s = ascii ''T12:00:00.000000+00:00''
      then Some (ex_time (int (s ! 9) - 48)) else None)"

definition ex_strpdate :: "string \<Rightarrow> date option" where
  "ex_strpdate s =
     (if length s = 10 \<and> take 9 s = ''2024-01-0''
         \<and> 49 \<le> (of_char (s ! 9) :: nat) \<and> (of_char (s ! 9) :: nat) \<le> 57
      then Some \<lparr>year = 2024, month = 1, day = int (of_char (s ! 9)) - 48\<rparr> else None)"

definition ex_float :: "ustr \<Rightarrow> ustr option" where
  "ex_float s =
     (if s \<noteq> [] \<and> list_all (\<lambda>c. (48 \<le> c \<and> c \<le> 57) \<or> c = 46 \<or> c = 45) s
      then Some s else None)"

definition ex_coord :: ustr where
  "ex_coord = ascii ''48.1'' @ degree_marker @ ascii '', 11.5'' @ degree_marker"

definition ex_point :: "int \<Rightarrow> ustr point" where
  "ex_point d = \<lparr>time = ex_time d, latitude = ascii ''48.1'', longitude = ascii ''11.5''\<rparr>"

definition ex_entry :: "nat \<Rightarrow> path_entry" where
  "ex_entry d = \<lparr>entry_point = Some ex_coord, entry_time = Some (ex_stamp d)\<rparr>"

definition ex_segments :: "nat list \<Rightarrow> segment list" where
  "ex_segments ds =
     [\<lparr>startTime = Some (ex_stamp 1), endTime = Some (ex_stamp 1), timelinePath = None\<rparr>,
      \<lparr>startTime = Some (ex_stamp 1), endTime = Some (ex_stamp 9),
       timelinePath = Some (map ex_entry ds)\<rparr>]"

definition ex_world :: "nat list \<Rightarrow> world" where
  "ex_world ds =
     \<lparr>path_exists = (\<lambda>p. p = ''timeline.json''),
      json_load = (\<lambda>p. if p = ''timeline.json''
                        then Some \<lparr>semanticSegments = Some (ex_segments ds)\<rparr> else None)\<rparr>"

definition ex_args :: args where
  "ex_args =
     \<lparr>arg_input = ''timeline.json'', arg_output = ''track.gpx'', arg_count = -1,
      arg_days = -1, arg_start = None, arg_end = None\<rparr>"

definition ex_run :: "nat list \<Rightarrow> args \<Rightarrow> error option \<times> ustr event list" where
  "ex_run ds a = main ex_float ex_strptime ex_strpdate (ex_world ds) a"

text \<open>The trace of the example before the first chunk is written.\<close>

definition ex_prefix :: "nat \<Rightarrow> ustr event list" where
  "ex_prefix n =
     [CheckExists ''track.gpx'', CheckExists ''timeline.json'', OpenRead ''timeline.json'',
      LogInfo ''Found 2 semantic segments'', LogDebug (ex_time 1) (ex_time 9) n]"

section \<open>Properties of the scan\<close>

subsection \<open>Traces and single steps\<close>

lemma emitted_append: "emitted (xs @ ys) = emitted xs @ emitted ys"
  by (induction xs rule: emitted.induct) simp_all

lemma written_names_append: "written_names (xs @ ys) = written_names xs @ written_names ys"
  by (induction xs rule: written_names.induct) simp_all

lemma emitted_dump_gpx: "emitted (dump_gpx c name) = [c]"
  by (simp add: dump_gpx_def)

lemma written_names_dump_gpx: "written_names (dump_gpx c name) = [name]"
  by (simp add: dump_gpx_def)

lemma days_between_self: "days_between d d = 0"
  by (simp add: days_between_def)

lemma dump_nonempty:
  "points \<noteq> [] \<Longrightarrow> dump out points c (n, evs) = (Suc n, evs @ dump_gpx c (output_name out n))"
  by (simp add: dump_def)

lemma dump_empty: "dump out [] c w = w"
  by (simp add: dump_def)

lemma loop_body_cases:
  assumes "start < i" and "i < length points"
  obtains
    (raise) err where "loop_body pd a points i (start, n, evs) = Raise err (start, n, evs)"
      and "arg_start a \<noteq> None \<or> arg_end a \<noteq> None"
  | (break) "loop_body pd a points i (start, n, evs) = Break (start, n, evs)"
      and "arg_end a \<noteq> None"
  | (skip) "loop_body pd a points i (start, n, evs) = Next (i, n, evs)"
      and "arg_start a \<noteq> None"
  | (keep) "loop_body pd a points i (start, n, evs) = Next (start, n, evs)"
      and "\<not> (arg_count a > 0 \<and> int i - int start \<ge> arg_count a)"
      and "\<not> (arg_days a > 0 \<and>
             days_between (date_of (time (points ! i))) (date_of (time (points ! start))) \<ge> arg_days a)"
  | (flush) "loop_body pd a points i (start, n, evs) =
        Next (i, Suc n, evs @ dump_gpx (slice points start i) (output_name (arg_output a) n))"
      and "(arg_count a > 0 \<and> int i - int start \<ge> arg_count a) \<or>
           (arg_days a > 0 \<and>
             days_between (date_of (time (points ! i))) (date_of (time (points ! start))) \<ge> arg_days a)"
proof -
  from assms have ne: "points \<noteq> []" by auto
  show thesis
  proof (cases "before_start pd a (points ! i)")
    case (Inl err)
    then have "arg_start a \<noteq> None" by (auto simp: before_start_def split: option.splits)
    with Inl show ?thesis by (intro raise[of err]) (simp_all add: loop_body_def)
  next
    case (Inr b)
    show ?thesis
    proof (cases b)
      case True
      with Inr have "arg_start a \<noteq> None" by (auto simp: before_start_def split: option.splits)
      with Inr True show ?thesis by (intro skip) (simp_all add: loop_body_def)
    next
      case False
      note nb = Inr False
      show ?thesis
      proof (cases "after_end pd a (points ! i)")
        case (Inl err)
        then have "arg_end a \<noteq> None" by (auto simp: after_end_def split: option.splits)
        with Inl nb show ?thesis by (intro raise[of err]) (simp_all add: loop_body_def)
      next
        case (Inr e)
        show ?thesis
        proof (cases e)
          case True
          with Inr have "arg_end a \<noteq> None" by (auto simp: after_end_def split: option.splits)
          with Inr True nb show ?thesis by (intro break) (simp_all add: loop_body_def)
        next
          case False
          have lb: "loop_body pd a points i (start, n, evs) =
              Next (days_check a points i (count_check a points i (start, n, evs)))"
            using nb Inr False by (simp add: loop_body_def)
          show ?thesis
          proof (cases "arg_count a > 0 \<and> int i - int start \<ge> arg_count a")
            case True
            then show ?thesis using lb ne
              by (intro flush) (simp_all add: count_check_def days_check_def dump_nonempty days_between_self)
          next
            case nc: False
            show ?thesis
            proof (cases "arg_days a > 0 \<and>
                days_between (date_of (time (points ! i))) (date_of (time (points ! start))) \<ge> arg_days a")
              case True
              then show ?thesis using lb ne nc
                by (intro flush) (simp_all add: count_check_def days_check_def dump_nonempty)
            next
              case nd: False
              have "loop_body pd a points i (start, n, evs) = Next (start, n, evs)"
                using lb nc nd by (auto simp: count_check_def days_check_def)
              then show ?thesis using nc nd by (rule keep)
            qed
          qed
        qed
      qed
    qed
  qed
qed

lemma scan_invariant:
  assumes "P k st" and "fst st < k" and "k \<le> length points"
    and step: "\<And>i s s'. \<lbrakk>k \<le> i; i < length points; fst s < i; P i s;
                  loop_body pd a points i s = Next s'\<rbrakk> \<Longrightarrow> P (Suc i) s'"
  shows "\<exists>r s' j. scan pd a points [k..<length points] st = (r, s') \<and>
           k \<le> j \<and> j \<le> length points \<and> P j s' \<and> fst s' < j \<and>
           (r = None \<and> arg_end a = None \<longrightarrow> j = length points) \<and>
           (r \<noteq> None \<longrightarrow> arg_start a \<noteq> None \<or> arg_end a \<noteq> None)"
  using assms
proof (induction "length points - k" arbitrary: k st)
  case 0
  then have "k = length points" by simp
  with 0 show ?case by auto
next
  case (Suc m)
  then have klt: "k < length points" by simp
  then have upt: "[k..<length points] = k # [Suc k..<length points]"
    by (simp add: upt_conv_Cons)
  obtain start n evs where st: "st = (start, n, evs)" by (cases st)
  with Suc.prems have slt: "start < k" by simp
  have IH: "\<exists>r s'' j. scan pd a points [Suc k..<length points] s' = (r, s'') \<and>
           Suc k \<le> j \<and> j \<le> length points \<and> P j s'' \<and> fst s'' < j \<and>
           (r = None \<and> arg_end a = None \<longrightarrow> j = length points) \<and>
           (r \<noteq> None \<longrightarrow> arg_start a \<noteq> None \<or> arg_end a \<noteq> None)"
    if nx: "loop_body pd a points k st = Next s'" and f: "fst s' < Suc k" for s'
  proof (rule Suc.hyps(1))
    show "m = length points - Suc k" using Suc.hyps(2) by simp
    show "P (Suc k) s'" using Suc.prems(1,2) klt nx by (intro Suc.prems(4)[of k st s']) simp_all
    show "fst s' < Suc k" by (rule f)
    show "Suc k \<le> length points" using klt by simp
    show "\<And>i s s'. \<lbrakk>Suc k \<le> i; i < length points; fst s < i; P i s;
            loop_body pd a points i s = Next s'\<rbrakk> \<Longrightarrow> P (Suc i) s'"
      using Suc.prems(4) by simp
  qed
  have fin: ?case if nx: "loop_body pd a points k st = Next s'" and f: "fst s' < Suc k" for s'
  proof -
    from IH[OF nx f] obtain r s'' j where
      sc: "scan pd a points [Suc k..<length points] s' = (r, s'')" and
      j: "Suc k \<le> j" "j \<le> length points" "P j s''" "fst s'' < j"
         "r = None \<and> arg_end a = None \<longrightarrow> j = length points"
         "r \<noteq> None \<longrightarrow> arg_start a \<noteq> None \<or> arg_end a \<noteq> None"
      by blast
    have "scan pd a points [k..<length points] st = (r, s'')"
      using upt nx sc by simp
    moreover have "k \<le> j" using j(1) by simp
    ultimately show ?thesis using j(2-) by blast
  qed
  from slt klt show ?case
  proof (cases rule: loop_body_cases[where pd = pd and a = a and n = n and evs = evs])
    case (raise err)
    then have "scan pd a points [k..<length points] st = (Some err, st)"
      using st upt by simp
    then show ?thesis using Suc.prems(1,2) klt raise(2)
      by (intro exI[of _ "Some err"] exI[of _ st] exI[of _ k]) simp
  next
    case break
    then have "scan pd a points [k..<length points] st = (None, st)"
      using st upt by simp
    then show ?thesis using Suc.prems(1,2) klt break(2)
      by (intro exI[of _ None] exI[of _ st] exI[of _ k]) simp
  next
    case skip
    then show ?thesis using st by (intro fin[of "(k, n, evs)"]) simp_all
  next
    case keep
    then show ?thesis using st slt by (intro fin[of "(start, n, evs)"]) simp_all
  next
    case flush
    show ?thesis
    proof (rule fin)
      show "loop_body pd a points k st =
        Next (k, Suc n, evs @ dump_gpx (slice points start k) (output_name (arg_output a) n))"
        using flush(1) st by simp
    qed simp
  qed
qed

lemma sequencer_empty:
  "sort_key (\<lambda>x. utc_micros (time x)) unsorted = [] \<Longrightarrow> sequencer pd a unsorted evs = (None, evs)"
  by (simp add: sequencer_def dump_empty)

lemma sequencer_invariant:
  fixes unsorted :: "'f point list"
  defines "points \<equiv> sort_key (\<lambda>x. utc_micros (time x)) unsorted"
  assumes ne: "points \<noteq> []"
    and init: "P 1 (0, 0, evs)"
    and step: "\<And>i s s'. \<lbrakk>1 \<le> i; i < length points; fst s < i; P i s;
                  loop_body pd a points i s = Next s'\<rbrakk> \<Longrightarrow> P (Suc i) s'"
  shows "\<exists>r start n evs' j. 1 \<le> j \<and> j \<le> length points \<and> P j (start, n, evs') \<and> start < j \<and>
           (r = None \<and> arg_end a = None \<longrightarrow> j = length points) \<and>
           (r \<noteq> None \<longrightarrow> arg_start a \<noteq> None \<or> arg_end a \<noteq> None) \<and>
           sequencer pd a unsorted evs =
             (r, if r = None
                 then evs' @ dump_gpx (drop start points) (output_name (arg_output a) n)
                 else evs')"
proof -
  have len: "1 \<le> length points" using ne by (cases points) simp_all
  have "\<exists>r s' j. scan pd a points [1..<length points] (0, 0, evs) = (r, s') \<and>
           1 \<le> j \<and> j \<le> length points \<and> P j s' \<and> fst s' < j \<and>
           (r = None \<and> arg_end a = None \<longrightarrow> j = length points) \<and>
           (r \<noteq> None \<longrightarrow> arg_start a \<noteq> None \<or> arg_end a \<noteq> None)"
  proof (rule scan_invariant)
    show "P 1 (0, 0, evs)" by (rule init)
    show "fst (0::nat, 0::nat, evs) < 1" by simp
    show "1 \<le> length points" by (rule len)
  qed (rule step)
  then obtain r s' j where
    sc: "scan pd a points [1..<length points] (0, 0, evs) = (r, s')" and
    j: "1 \<le> j" "j \<le> length points" "P j s'" "fst s' < j"
       "r = None \<and> arg_end a = None \<longrightarrow> j = length points"
       "r \<noteq> None \<longrightarrow> arg_start a \<noteq> None \<or> arg_end a \<noteq> None"
    by blast
  obtain start n evs' where s': "s' = (start, n, evs')" by (cases s')
  have "sequencer pd a unsorted evs =
      (r, if r = None
          then evs' @ dump_gpx (drop start points) (output_name (arg_output a) n)
          else evs')"
    using sc s' ne unfolding sequencer_def points_def[symmetric] Let_def
    by (cases r) (simp_all add: dump_nonempty)
  with j s' show ?thesis by (intro exI[of _ r] exI[of _ start] exI[of _ n] exI[of _ evs'] exI[of _ j]) simp
qed

lemma length_slice: "i \<le> length xs \<Longrightarrow> length (slice xs start i) = i - start"
  by (simp add: slice_def)

lemma loop_body_Next_cases:
  assumes "loop_body pd a points i (start, n, evs) = Next s'" and "start < i" and "i < length points"
  obtains
    (skip) "s' = (i, n, evs)" and "arg_start a \<noteq> None"
  | (keep) "s' = (start, n, evs)"
      and "\<not> (arg_count a > 0 \<and> int i - int start \<ge> arg_count a)"
      and "\<not> (arg_days a > 0 \<and>
             days_between (date_of (time (points ! i))) (date_of (time (points ! start))) \<ge> arg_days a)"
  | (flush) "s' = (i, Suc n, evs @ dump_gpx (slice points start i) (output_name (arg_output a) n))"
      and "(arg_count a > 0 \<and> int i - int start \<ge> arg_count a) \<or>
           (arg_days a > 0 \<and>
             days_between (date_of (time (points ! i))) (date_of (time (points ! start))) \<ge> arg_days a)"
  using assms(2,3)
proof (cases rule: loop_body_cases[where pd = pd and a = a and n = n and evs = evs])
  case (raise err) with assms(1) show ?thesis by simp
next
  case break with assms(1) show ?thesis by simp
next
  case skip with assms(1) show ?thesis by (intro that(1)) simp_all
next
  case keep with assms(1) show ?thesis by (intro that(2)) simp_all
next
  case flush with assms(1) show ?thesis by (intro that(3)) simp_all
qed

lemma sequencer_count:
  fixes unsorted :: "'f point list"
  assumes e0: "emitted evs = []" and N: "arg_count a = N" "N > 0" and D: "arg_days a \<le> 0"
  shows "\<forall>c \<in> set (butlast (emitted (snd (sequencer pd a unsorted evs)))). int (length c) = N"
proof (cases "sort_key (\<lambda>x. utc_micros (time x)) unsorted = []")
  case True
  then show ?thesis using e0 by (simp add: sequencer_empty)
next
  case False
  define points where "points = sort_key (\<lambda>x. utc_micros (time x)) unsorted"
  define P :: "nat \<Rightarrow> nat \<times> nat \<times> 'f event list \<Rightarrow> bool" where
    "P = (\<lambda>i s. (\<forall>c \<in> set (emitted (snd (snd s))). int (length c) = N) \<and> int i - int (fst s) \<le> N)"
  have "\<exists>r start n evs' j. 1 \<le> j \<and> j \<le> length (sort_key (\<lambda>x. utc_micros (time x)) unsorted) \<and> P j (start, n, evs') \<and> start < j \<and>
           (r = None \<and> arg_end a = None \<longrightarrow> j = length (sort_key (\<lambda>x. utc_micros (time x)) unsorted)) \<and>
           (r \<noteq> None \<longrightarrow> arg_start a \<noteq> None \<or> arg_end a \<noteq> None) \<and>
           sequencer pd a unsorted evs =
             (r, if r = None
                 then evs' @ dump_gpx (drop start (sort_key (\<lambda>x. utc_micros (time x)) unsorted)) (output_name (arg_output a) n)
                 else evs')"
  proof (rule sequencer_invariant[OF False])
    show "P 1 (0, 0, evs)" using e0 N by (simp add: P_def)
  next
    fix i s s'
    assume i: "1 \<le> i" "i < length (sort_key (\<lambda>x. utc_micros (time x)) unsorted)"
      and s: "fst s < i" "P i s"
      and lb: "loop_body pd a (sort_key (\<lambda>x. utc_micros (time x)) unsorted) i s = Next s'"
    obtain start n evs' where st: "s = (start, n, evs')" by (cases s)
    from lb[unfolded st] s(1)[unfolded st fst_conv] i(2)
    show "P (Suc i) s'"
    proof (cases rule: loop_body_Next_cases)
      case skip
      then show ?thesis using s(2) st N by (simp add: P_def)
    next
      case keep
      then show ?thesis using s(2) st N by (simp add: P_def)
    next
      case flush
      with D N have "int i - int start \<ge> N" by auto
      moreover from s(2) st have "int i - int start \<le> N" by (simp add: P_def)
      ultimately have "int (i - start) = N" using s(1) st by simp
      then have "int (length (slice (sort_key (\<lambda>x. utc_micros (time x)) unsorted) start i)) = N"
        using i(2) by (simp add: length_slice)
      then show ?thesis using flush(1) s(2) st N
        by (simp add: P_def emitted_append emitted_dump_gpx)
    qed
  qed
  then obtain r start n evs' j where
    P: "P j (start, n, evs')" and
    sq: "sequencer pd a unsorted evs =
             (r, if r = None
                 then evs' @ dump_gpx (drop start (sort_key (\<lambda>x. utc_micros (time x)) unsorted)) (output_name (arg_output a) n)
                 else evs')"
    by blast
  show ?thesis
  proof (cases r)
    case None
    then show ?thesis using P sq by (simp add: P_def emitted_append emitted_dump_gpx)
  next
    case (Some e)
    then show ?thesis using P sq by (auto simp: P_def dest: in_set_butlastD)
  qed
qed

lemma flatten_emitted:
  "emitted (fst (flatten float strptime segs points evs)) = emitted evs"
  by (induction segs arbitrary: points evs)
     (simp_all add: emitted_append Let_def split: option.splits sum.splits)

lemma flatten_written_names:
  "written_names (fst (flatten float strptime segs points evs)) = written_names evs"
  by (induction segs arbitrary: points evs)
     (simp_all add: written_names_append Let_def split: option.splits sum.splits)

lemma main_cases:
  obtains
    (abort) "emitted (snd (main float strptime strpdate fs a)) = []"
      and "written_names (snd (main float strptime strpdate fs a)) = []"
  | (run) doc segs evs1 evs2 unsorted where
      "\<not> path_exists fs (arg_output a)" and "path_exists fs (arg_input a)"
      and "json_load fs (arg_input a) = Some doc" and "semanticSegments doc = Some segs"
      and "flatten float strptime segs [] evs1 = (evs2, Inr unsorted)"
      and "emitted evs2 = []" and "written_names evs2 = []"
      and "main float strptime strpdate fs a = sequencer strpdate a unsorted evs2"
proof (cases "\<not> path_exists fs (arg_output a) \<and> path_exists fs (arg_input a)")
  case False
  then show ?thesis by (intro abort) (auto simp: main_def)
next
  case ok: True
  show ?thesis
  proof (cases "json_load fs (arg_input a)")
    case None
    with ok show ?thesis by (intro abort) (simp_all add: main_def)
  next
    case (Some doc)
    note doc = this
    show ?thesis
    proof (cases "semanticSegments doc")
      case None
      with ok doc show ?thesis by (intro abort) (simp_all add: main_def)
    next
      case (Some segs)
      define evs1 :: "'a event list" where "evs1 =
        ([CheckExists (arg_output a), CheckExists (arg_input a)]
          @ (if basename (arg_output a) \<noteq> arg_output a
             then [MakeDirs (dirname (arg_output a))] else [])
          @ [OpenRead (arg_input a)])
          @ [LogInfo (''Found '' @ str_nat (length segs) @ '' semantic segments'')]"
      have e1: "emitted evs1 = []" "written_names evs1 = []"
        by (simp_all add: evs1_def)
      obtain evs2 res where fl: "flatten float strptime segs [] evs1 = (evs2, res)"
        by (cases "flatten float strptime segs [] evs1")
      have e2: "emitted evs2 = []" "written_names evs2 = []"
        using flatten_emitted[of float strptime segs "[]" evs1]
          flatten_written_names[of float strptime segs "[]" evs1] fl e1 by simp_all
      have m: "main float strptime strpdate fs a =
          (case res of Inl err \<Rightarrow> (Some err, evs2) | Inr points \<Rightarrow> sequencer strpdate a points evs2)"
        using ok doc Some fl by (simp add: main_def evs1_def Let_def)
      show ?thesis
      proof (cases res)
        case (Inl err)
        with m e2 show ?thesis by (intro abort) simp_all
      next
        case (Inr unsorted)
        with m e2 fl ok doc Some show ?thesis by (intro run[of doc segs evs1 evs2 unsorted]) simp_all
      qed
    qed
  qed
qed

subsection \<open>The chunks of a run\<close>

lemma take_slice: "start \<le> i \<Longrightarrow> take start xs @ slice xs start i = take i xs"
  using take_add[of start "i - start" xs] by (simp add: slice_def)

lemma sorted_slice: "sorted (map f xs) \<Longrightarrow> sorted (map f (slice xs start i))"
  by (simp add: slice_def take_map[symmetric] drop_map[symmetric] sorted_wrt_take sorted_wrt_drop)

lemma sorted_drop_map: "sorted (map f xs) \<Longrightarrow> sorted (map f (drop n xs))"
  by (simp add: drop_map[symmetric] sorted_wrt_drop)

lemma slice_nonempty: "start < i \<Longrightarrow> i \<le> length xs \<Longrightarrow> slice xs start i \<noteq> []"
  by (simp add: slice_def)

lemma sequencer_chunks:
  fixes unsorted :: "'f point list"
  assumes e0: "emitted evs = []" and w0: "written_names evs = []"
  shows "\<exists>r evs'. sequencer pd a unsorted evs = (r, evs') \<and>
      [] \<notin> set (emitted evs') \<and>
      (\<forall>c \<in> set (emitted evs'). sorted (map (\<lambda>x. utc_micros (time x)) c)) \<and>
      written_names evs' = map (output_name (arg_output a)) [0..<length (emitted evs')] \<and>
      (arg_start a = None \<and> r = None \<longrightarrow>
         concat (emitted evs') = sort_key (\<lambda>x. utc_micros (time x)) unsorted) \<and>
      (arg_start a = None \<and> arg_end a = None \<longrightarrow> r = None)"
proof (cases "sort_key (\<lambda>x. utc_micros (time x)) unsorted = []")
  case True
  then show ?thesis using e0 w0 by (simp add: sequencer_empty)
next
  case False
  define points where "points = sort_key (\<lambda>x. utc_micros (time x)) unsorted"
  have srt: "sorted (map (\<lambda>x. utc_micros (time x)) points)"
    by (simp add: points_def)
  define P :: "nat \<Rightarrow> nat \<times> nat \<times> 'f event list \<Rightarrow> bool" where
    "P = (\<lambda>i s. [] \<notin> set (emitted (snd (snd s))) \<and>
       (\<forall>c \<in> set (emitted (snd (snd s))). sorted (map (\<lambda>x. utc_micros (time x)) c)) \<and>
       written_names (snd (snd s)) = map (output_name (arg_output a)) [0..<fst (snd s)] \<and>
       length (emitted (snd (snd s))) = fst (snd s) \<and>
       (arg_start a = None \<longrightarrow> concat (emitted (snd (snd s))) = take (fst s) points))"
  have "\<exists>r start n evs' j. 1 \<le> j \<and> j \<le> length (sort_key (\<lambda>x. utc_micros (time x)) unsorted) \<and>
           P j (start, n, evs') \<and> start < j \<and>
           (r = None \<and> arg_end a = None \<longrightarrow> j = length (sort_key (\<lambda>x. utc_micros (time x)) unsorted)) \<and>
           (r \<noteq> None \<longrightarrow> arg_start a \<noteq> None \<or> arg_end a \<noteq> None) \<and>
           sequencer pd a unsorted evs =
             (r, if r = None
                 then evs' @ dump_gpx (drop start (sort_key (\<lambda>x. utc_micros (time x)) unsorted))
                        (output_name (arg_output a) n)
                 else evs')"
  proof (rule sequencer_invariant[OF False])
    show "P 1 (0, 0, evs)" using e0 w0 by (simp add: P_def)
  next
    fix i s s'
    assume i: "1 \<le> i" "i < length (sort_key (\<lambda>x. utc_micros (time x)) unsorted)"
      and s: "fst s < i" "P i s"
      and lb: "loop_body pd a (sort_key (\<lambda>x. utc_micros (time x)) unsorted) i s = Next s'"
    obtain start n evs' where st: "s = (start, n, evs')" by (cases s)
    from lb[unfolded st] s(1)[unfolded st fst_conv] i(2)
    show "P (Suc i) s'"
    proof (cases rule: loop_body_Next_cases)
      case skip
      then show ?thesis using s(2) st by (auto simp: P_def)
    next
      case keep
      then show ?thesis using s(2) st by (simp add: P_def)
    next
      case flush
      have lt: "start < i" using s(1) st by simp
      have ne: "slice points start i \<noteq> []"
        using lt i(2) by (simp add: slice_nonempty points_def)
      have so: "sorted (map (\<lambda>x. utc_micros (time x)) (slice points start i))"
        using srt by (rule sorted_slice)
      have tk: "take start points @ slice points start i = take i points"
        using lt by (simp add: take_slice)
      from s(2) st have old: "[] \<notin> set (emitted evs')"
        "\<forall>c \<in> set (emitted evs'). sorted (map (\<lambda>x. utc_micros (time x)) c)"
        "written_names evs' = map (output_name (arg_output a)) [0..<n]"
        "length (emitted evs') = n"
        "arg_start a = None \<longrightarrow> concat (emitted evs') = take start points"
        by (simp_all add: P_def)
      show ?thesis
        unfolding P_def flush(1) points_def[symmetric]
        using ne so tk old
        by (auto simp: emitted_append emitted_dump_gpx written_names_append written_names_dump_gpx)
    qed
  qed
  then obtain r start n evs' j where
    j: "j \<le> length points" "start < j" and
    P: "P j (start, n, evs')" and
    err: "r \<noteq> None \<longrightarrow> arg_start a \<noteq> None \<or> arg_end a \<noteq> None" and
    sq: "sequencer pd a unsorted evs =
             (r, if r = None
                 then evs' @ dump_gpx (drop start points) (output_name (arg_output a) n)
                 else evs')"
    unfolding points_def by blast
  from P have old: "[] \<notin> set (emitted evs')"
    "\<forall>c \<in> set (emitted evs'). sorted (map (\<lambda>x. utc_micros (time x)) c)"
    "written_names evs' = map (output_name (arg_output a)) [0..<n]"
    "length (emitted evs') = n"
    "arg_start a = None \<longrightarrow> concat (emitted evs') = take start points"
    by (simp_all add: P_def)
  show ?thesis
  proof (cases r)
    case None
    have ne: "drop start points \<noteq> []" using j by simp
    have so: "sorted (map (\<lambda>x. utc_micros (time x)) (drop start points))"
      using srt by (rule sorted_drop_map)
    show ?thesis
      unfolding sq None points_def[symmetric]
      using ne so old
      by (auto simp: emitted_append emitted_dump_gpx written_names_append written_names_dump_gpx)
  next
    case (Some e)
    with err have "arg_start a \<noteq> None \<or> arg_end a \<noteq> None" by simp
    then show ?thesis
      unfolding sq Some using old by auto
  qed
qed

subsection \<open>The flattener and the run\<close>

lemma path_points_length:
  "path_points float strptime es = Inr ps \<Longrightarrow> length ps = length es"
  by (induction es arbitrary: ps) (auto split: option.splits sum.splits)

lemma flatten_length:
  "flatten float strptime segs points evs = (evs', Inr ps) \<Longrightarrow>
   length ps = length points + timeline_path_entries segs"
proof (induction segs arbitrary: points evs)
  case Nil
  then show ?case by (simp add: timeline_path_entries_def)
next
  case (Cons seg segs)
  show ?case
  proof (cases "timelinePath seg")
    case None
    with Cons.prems have "flatten float strptime segs points evs = (evs', Inr ps)"
      by (simp split: option.splits)
    from Cons.IH[OF this] None show ?thesis by (simp add: timeline_path_entries_def)
  next
    case (Some path)
    with Cons.prems obtain st en qs where
      pp: "path_points float strptime path = Inr qs" and
      fl: "flatten float strptime segs (points @ qs) (evs @ [LogDebug st en (length path)]) = (evs', Inr ps)"
      by (auto simp: Let_def split: option.splits sum.splits)
    from Cons.IH[OF fl] path_points_length[OF pp] Some show ?thesis
      by (simp add: timeline_path_entries_def)
  qed
qed

lemma flatten_points_trace:
  "snd (flatten float strptime segs points evs) = snd (flatten float strptime segs points evs')"
proof (induction segs arbitrary: points evs evs')
  case Nil
  show ?case by simp
next
  case (Cons seg segs)
  show ?case
    using Cons.IH by (auto simp: Let_def split: option.splits sum.splits)
qed

lemma flatten_bad_segment:
  "seg \<in> set segs \<Longrightarrow> \<not> times_parse strptime seg \<Longrightarrow>
   \<exists>evs' e. flatten float strptime segs points evs = (evs', Inl e)"
proof (induction segs arbitrary: points evs)
  case Nil
  then show ?case by simp
next
  case (Cons s segs)
  show ?case
  proof (cases "times_parse strptime s")
    case False
    then show ?thesis
      by (auto simp: times_parse_def split: option.splits)
  next
    case True
    with Cons.prems have "seg \<in> set segs" by auto
    from Cons.IH[OF this Cons.prems(2)] show ?thesis
      by (auto simp: Let_def split: option.splits sum.splits)
  qed
qed

lemma flatten_error_kind:
  "flatten float strptime segs points evs = (evs', Inl e) \<Longrightarrow> e = KeyError \<or> e = ValueError"
proof (induction segs arbitrary: points evs)
  case Nil
  then show ?case by simp
next
  case (Cons s segs)
  have pp: "\<And>es err. path_points float strptime es = Inl err \<Longrightarrow> err = KeyError \<or> err = ValueError"
  proof -
    fix es err
    show "path_points float strptime es = Inl err \<Longrightarrow> err = KeyError \<or> err = ValueError"
      by (induction es)
         (auto simp: split_latlng_def split: option.splits sum.splits list.splits)
  qed
  from Cons.prems show ?case
    using Cons.IH pp by (auto simp: Let_def split: option.splits sum.splits)
qed

lemma main_run:
  assumes "\<not> path_exists fs (arg_output a)" and "path_exists fs (arg_input a)"
    and "json_load fs (arg_input a) = Some doc" and "semanticSegments doc = Some segs"
  shows "\<exists>evs1. emitted evs1 = [] \<and> written_names evs1 = [] \<and>
           main float strptime strpdate fs a =
             (case flatten float strptime segs [] evs1 of
                (evs2, Inl err) \<Rightarrow> (Some err, evs2)
              | (evs2, Inr points) \<Rightarrow> sequencer strpdate a points evs2)"
proof -
  define evs1 :: "'a event list" where
    "evs1 = [CheckExists (arg_output a), CheckExists (arg_input a)]
       @ (if basename (arg_output a) \<noteq> arg_output a then [MakeDirs (dirname (arg_output a))] else [])
       @ [OpenRead (arg_input a)]
       @ [LogInfo (''Found '' @ str_nat (length segs) @ '' semantic segments'')]"
  have "emitted evs1 = []" and "written_names evs1 = []"
    by (simp_all add: evs1_def)
  moreover have "main float strptime strpdate fs a =
             (case flatten float strptime segs [] evs1 of
                (evs2, Inl err) \<Rightarrow> (Some err, evs2)
              | (evs2, Inr points) \<Rightarrow> sequencer strpdate a points evs2)"
    using assms by (simp add: main_def Let_def evs1_def)
  ultimately show ?thesis by blast
qed

lemma main_chunks:
  "\<exists>r evs'. main float strptime strpdate fs a = (r, evs') \<and>
      [] \<notin> set (emitted evs') \<and>
      (\<forall>c \<in> set (emitted evs'). sorted (map (\<lambda>x. utc_micros (time x)) c)) \<and>
      written_names evs' = map (output_name (arg_output a)) [0..<length (emitted evs')]"
proof (cases rule: main_cases[of float strptime strpdate fs a])
  case abort
  then show ?thesis by (cases "main float strptime strpdate fs a") simp
next
  case (run doc segs evs1 evs2 unsorted)
  from sequencer_chunks[OF run(6) run(7), of strpdate a unsorted] run(8)
  show ?thesis by auto
qed

subsection \<open>Splitting and stripping\<close>

lemma split_nonempty: "split s sep \<noteq> []"
  by (induction s) (auto split: list.splits)

lemma split_one: "split s sep = [r] \<Longrightarrow> s = r \<and> sep \<notin> set r"
proof (induction s arbitrary: r)
  case Nil
  then show ?case by simp
next
  case (Cons c s)
  show ?case
  proof (cases "c = sep")
    case True
    with Cons.prems split_nonempty[of s sep] show ?thesis by simp
  next
    case False
    obtain p ps where sp: "split s sep = p # ps"
      using split_nonempty[of s sep] by (cases "split s sep") auto
    with Cons.prems False have "ps = []" "r = c # p" by auto
    with sp Cons.IH[of p] False show ?thesis by auto
  qed
qed

lemma split_two: "split s sep = [l, r] \<Longrightarrow> s = l @ sep # r \<and> sep \<notin> set l \<and> sep \<notin> set r"
proof (induction s arbitrary: l)
  case Nil
  then show ?case by simp
next
  case (Cons c s)
  show ?case
  proof (cases "c = sep")
    case True
    with Cons.prems have "l = []" "split s sep = [r]" by auto
    with split_one[of s sep r] True show ?thesis by simp
  next
    case False
    obtain p ps where sp: "split s sep = p # ps"
      using split_nonempty[of s sep] by (cases "split s sep") auto
    with Cons.prems False have "ps = [r]" "l = c # p" by auto
    with sp Cons.IH[of p] False show ?thesis by auto
  qed
qed

lemma split_no_sep: "sep \<notin> set s \<Longrightarrow> split s sep = [s]"
  by (induction s) auto

lemma split_at_first: "sep \<notin> set l \<Longrightarrow> split (l @ sep # r) sep = l # split r sep"
  by (induction l) auto

lemma split_two_iff:
  "split s sep = [l, r] \<longleftrightarrow> s = l @ sep # r \<and> sep \<notin> set l \<and> sep \<notin> set r"
  using split_two[of s sep l r] by (auto simp: split_at_first split_no_sep)

lemma replace_marker_append:
  "replace (u @ degree_marker @ v) degree_marker [] =
     replace u degree_marker [] @ replace v degree_marker []"
proof (induction u rule: length_induct)
  case (1 u)
  show ?case
  proof (cases u)
    case Nil
    then show ?thesis by (simp add: degree_marker_def)
  next
    case (Cons c u')
    show ?thesis
    proof (cases "take 2 (c # u') = degree_marker")
      case True
      then obtain u'' where u': "u' = 0xB0 # u''" and c: "c = 0xC2"
        by (cases u') (auto simp: degree_marker_def)
      have "length u'' < length u" using Cons u' by simp
      with 1 have "replace (u'' @ degree_marker @ v) degree_marker [] =
          replace u'' degree_marker [] @ replace v degree_marker []" by blast
      then show ?thesis using Cons u' c by (simp add: degree_marker_def)
    next
      case False
      have "length u' < length u" using Cons by simp
      with 1 have ih: "replace (u' @ degree_marker @ v) degree_marker [] =
          replace u' degree_marker [] @ replace v degree_marker []" by blast
      from False have "take 2 (c # u' @ degree_marker @ v) \<noteq> degree_marker"
        by (cases u') (auto simp: degree_marker_def)
      with False ih show ?thesis using Cons by (auto simp: degree_marker_def)
    qed
  qed
qed

subsection \<open>Evaluating the example\<close>

lemma str_nat_small: "n < 10 \<Longrightarrow> str_nat n = [digit_char n]"
  by (simp add: str_nat.simps)

lemma str_nat_large: "\<not> n < 10 \<Longrightarrow> str_nat n = str_nat (n div 10) @ [digit_char (n mod 10)]"
  by (subst str_nat.simps) simp

lemma ex_strptime_stamp: "1 \<le> d \<Longrightarrow> d \<le> 9 \<Longrightarrow> ex_strptime (ex_stamp d) = Some (ex_time (int d))"
  by (simp add: ex_strptime_def ex_stamp_def ascii_def nth_append)

lemma ex_split_latlng: "split_latlng ex_float ex_coord = Inr (ascii ''48.1'', ascii ''11.5'')"
  by (simp add: split_latlng_def ex_coord_def ascii_def degree_marker_def comma_def strip_def
      isspace_def ex_float_def)

lemma ex_path_points:
  "\<forall>d \<in> set ds. 1 \<le> d \<and> d \<le> 9 \<Longrightarrow>
   path_points ex_float ex_strptime (map ex_entry ds) = Inr (map (\<lambda>d. ex_point (int d)) ds)"
  by (induction ds) (simp_all add: ex_entry_def ex_split_latlng ex_strptime_stamp ex_point_def)

lemma ex_flatten:
  "\<forall>d \<in> set ds. 1 \<le> d \<and> d \<le> 9 \<Longrightarrow>
   flatten ex_float ex_strptime (ex_segments ds) [] evs =
     (evs @ [LogDebug (ex_time 1) (ex_time 9) (length ds)], Inr (map (\<lambda>d. ex_point (int d)) ds))"
  by (simp add: ex_segments_def ex_strptime_stamp ex_path_points)

lemma length_ex_segments: "length (ex_segments ds) = 2"
  by (simp add: ex_segments_def)

lemma str_nat_2: "str_nat 2 = ''2''"
  by code_simp

lemma ex_main:
  "\<forall>d \<in> set ds. 1 \<le> d \<and> d \<le> 9 \<Longrightarrow> arg_input a = ''timeline.json'' \<Longrightarrow>
   arg_output a = ''track.gpx'' \<Longrightarrow>
   ex_run ds a = sequencer ex_strpdate a (map (\<lambda>d. ex_point (int d)) ds) (ex_prefix (length ds))"
  by (simp add: ex_run_def main_def ex_world_def ex_flatten basename_def ex_prefix_def
      length_ex_segments str_nat_2)

section \<open>The claims\<close>

text \<open>
  Claim C4. For every \<open>N > 0\<close>, when the point-count limit is \<open>N\<close> and no day-span limit is
  configured (\<open>arg_days a \<le> 0\<close>), every emitted chunk except the last one contains exactly
  \<open>N\<close> points. This holds for every run, whatever the date filters are and also when the
  run ends in an exception.
\<close>

theorem count_limit_chunks:
  assumes "arg_count a = N" and "N > 0" and "arg_days a \<le> 0"
  shows "\<forall>c \<in> set (butlast (emitted (snd (main float strptime strpdate fs a)))). int (length c) = N"
proof (cases rule: main_cases[of float strptime strpdate fs a])
  case abort
  then show ?thesis by simp
next
  case (run doc segs evs1 evs2 unsorted)
  then show ?thesis using sequencer_count[OF run(6) assms, of strpdate unsorted] by simp
qed

theorem count_limit_chunks_witness:
  "map length (emitted (snd (ex_run [2, 1, 3, 4, 5] (ex_args\<lparr>arg_count := 2\<rparr>)))) = [2, 2, 1] \<and>
   list_all (\<lambda>c. int (length c) = 2)
     (butlast (emitted (snd (ex_run [2, 1, 3, 4, 5] (ex_args\<lparr>arg_count := 2\<rparr>)))))"
proof -
  have run: "ex_run [2, 1, 3, 4, 5] (ex_args\<lparr>arg_count := 2\<rparr>) =
      sequencer ex_strpdate (ex_args\<lparr>arg_count := 2\<rparr>)
        (map (\<lambda>d. ex_point (int d)) [2, 1, 3, 4, 5]) (ex_prefix (length [2, 1, 3, 4, 5 :: nat]))"
    by (rule ex_main) (simp_all add: ex_args_def)
  have "map length (emitted (snd (sequencer ex_strpdate (ex_args\<lparr>arg_count := 2\<rparr>)
        (map (\<lambda>d. ex_point (int d)) [2, 1, 3, 4, 5]) (ex_prefix (length [2, 1, 3, 4, 5 :: nat]))))) = [2, 2, 1]"
    by code_simp
  then have "map length (emitted (snd (ex_run [2, 1, 3, 4, 5] (ex_args\<lparr>arg_count := 2\<rparr>)))) = [2, 2, 1]"
    by (simp only: run)
  moreover have "arg_count (ex_args\<lparr>arg_count := 2\<rparr>) = 2" "arg_days (ex_args\<lparr>arg_count := 2\<rparr>) \<le> 0"
    by (simp_all add: ex_args_def)
  ultimately show ?thesis
    using count_limit_chunks[of "ex_args\<lparr>arg_count := 2\<rparr>" 2 ex_float ex_strptime ex_strpdate
        "ex_world [2, 1, 3, 4, 5]"]
    by (simp add: ex_run_def list_all_iff)
qed

text \<open>
  Claim C7. If the output path already exists when the run begins, the run logs an error and
  returns: its whole trace is the existence check of the output path and the error message.
  No file is written, the existence of the input path is not checked and the input is not
  opened.
\<close>

theorem output_exists_aborts:
  "path_exists fs (arg_output a) \<Longrightarrow>
   main float strptime strpdate fs a =
     (None, [CheckExists (arg_output a),
             LogError (''Output file '' @ arg_output a @ '' already exists'')])"
  by (simp add: main_def)

theorem output_exists_aborts_witness:
  "main ex_float ex_strptime ex_strpdate
     \<lparr>path_exists = (\<lambda>p. p = ''timeline.json'' \<or> p = ''track.gpx''),
      json_load = json_load (ex_world [1, 2])\<rparr>
     ex_args =
   (None, [CheckExists ''track.gpx'', LogError ''Output file track.gpx already exists''])"
  using output_exists_aborts[of
      "\<lparr>path_exists = (\<lambda>p. p = ''timeline.json'' \<or> p = ''track.gpx''),
        json_load = json_load (ex_world [1, 2])\<rparr>"
      ex_args ex_float ex_strptime ex_strpdate]
  by (simp add: ex_args_def)

text \<open>
  Claim C6. The claim says that for a base path ending in \<^verbatim>\<open>.gpx\<close> the number is inserted
  before the trailing extension and nothing else of the path is altered. The code
  computes the name with \<^verbatim>\<open>args.output.replace(".gpx", ...)\<close>, which rewrites every
  occurrence of \<^verbatim>\<open>.gpx\<close>: for the base path \<^verbatim>\<open>trips.gpx/day.gpx\<close> the first file is
  \<^verbatim>\<open>trips_00000.gpx/day_00000.gpx\<close> and not \<^verbatim>\<open>trips.gpx/day_00000.gpx\<close>.
\<close>

theorem output_name_replaces_every_gpx:
  "endswith ''trips.gpx/day.gpx'' ''.gpx'' \<and>
   output_name ''trips.gpx/day.gpx'' 0 = ''trips_00000.gpx/day_00000.gpx'' \<and>
   output_name ''trips.gpx/day.gpx'' 0 \<noteq> ''trips.gpx/day_00000.gpx''"
  by code_simp

text \<open>
  Claim C1. The claim says that with \<^verbatim>\<open>--start 2024-01-03\<close>, no end date and no limits, on
  four points dated January 1, 2, 3 and 4 the single chunk holds exactly the points of
  January 3 and 4. The code sets \<open>start\<close> to the index of the last point before the start
  date instead of the index after it (and never tests index 0), so the run writes one
  chunk of three points: January 2, 3 and 4.
\<close>

theorem start_filter_keeps_earlier_point:
  "emitted (snd (ex_run [1, 2, 3, 4] (ex_args\<lparr>arg_start := Some ''2024-01-03''\<rparr>))) =
     [[ex_point 2, ex_point 3, ex_point 4]] \<and>
   ex_strpdate ''2024-01-03'' = Some \<lparr>year = 2024, month = 1, day = 3\<rparr> \<and>
   date_less (date_of (time (ex_point 2))) \<lparr>year = 2024, month = 1, day = 3\<rparr>"
proof -
  have "ex_run [1, 2, 3, 4] (ex_args\<lparr>arg_start := Some ''2024-01-03''\<rparr>) =
      sequencer ex_strpdate (ex_args\<lparr>arg_start := Some ''2024-01-03''\<rparr>)
        (map (\<lambda>d. ex_point (int d)) [1, 2, 3, 4]) (ex_prefix (length [1, 2, 3, 4 :: nat]))"
    by (rule ex_main) (simp_all add: ex_args_def)
  also have "\<dots> =
      (None, ex_prefix 4 @ dump_gpx [ex_point 2, ex_point 3, ex_point 4] ''track_00000.gpx'')"
    by code_simp
  finally have "emitted (snd (ex_run [1, 2, 3, 4] (ex_args\<lparr>arg_start := Some ''2024-01-03''\<rparr>))) =
      [[ex_point 2, ex_point 3, ex_point 4]]"
    by (simp add: emitted_append emitted_dump_gpx ex_prefix_def)
  moreover have "ex_strpdate ''2024-01-03'' = Some \<lparr>year = 2024, month = 1, day = 3\<rparr>"
    by code_simp
  moreover have "date_less (date_of (time (ex_point 2))) \<lparr>year = 2024, month = 1, day = 3\<rparr>"
    by code_simp
  ultimately show ?thesis by simp
qed

text \<open>
  Claim C5. The claim says that with a day-span limit \<open>D > 0\<close> the dates of the first and the
  last point of every chunk are less than \<open>D\<close> days apart. When an end date is set, the code
  leaves the scan at the first point after the end date and then writes
  \<^verbatim>\<open>points[start:]\<close>, which holds every remaining point: with \<^verbatim>\<open>--days 3 --end 2024-01-01\<close>
  on points dated January 1, 2 and 9 the single chunk holds all three points, 8 days apart.
\<close>

theorem end_filter_breaks_day_span:
  "emitted (snd (ex_run [1, 2, 9] (ex_args\<lparr>arg_days := 3, arg_end := Some ''2024-01-01''\<rparr>))) =
     [[ex_point 1, ex_point 2, ex_point 9]] \<and>
   days_between (date_of (time (ex_point 9))) (date_of (time (ex_point 1))) = 8"
proof -
  have "ex_run [1, 2, 9] (ex_args\<lparr>arg_days := 3, arg_end := Some ''2024-01-01''\<rparr>) =
      sequencer ex_strpdate (ex_args\<lparr>arg_days := 3, arg_end := Some ''2024-01-01''\<rparr>)
        (map (\<lambda>d. ex_point (int d)) [1, 2, 9]) (ex_prefix (length [1, 2, 9 :: nat]))"
    by (rule ex_main) (simp_all add: ex_args_def)
  also have "\<dots> =
      (None, ex_prefix 3 @ dump_gpx [ex_point 1, ex_point 2, ex_point 9] ''track_00000.gpx'')"
    by code_simp
  finally have "emitted (snd (ex_run [1, 2, 9] (ex_args\<lparr>arg_days := 3, arg_end := Some ''2024-01-01''\<rparr>))) =
      [[ex_point 1, ex_point 2, ex_point 9]]"
    by (simp add: emitted_append emitted_dump_gpx ex_prefix_def)
  moreover have "days_between (date_of (time (ex_point 9))) (date_of (time (ex_point 1))) = 8"
    by code_simp
  ultimately show ?thesis by simp
qed

text \<open>
  Claim C8. A chunk with zero points produces no file and does not advance the sequence
  counter. The guard of \<^verbatim>\<open>dump\<close> tests the enclosing list \<^verbatim>\<open>points\<close>, and the scan passes an
  empty chunk only when that list is empty, so: the writer called with an empty chunk of
  an empty list leaves the counter and the trace as they are; no run writes a file of
  zero points; the files of a run are numbered \<open>0, 1, 2, ...\<close> without a gap, one number per
  written file; and a run on a document whose paths have no entries writes no file.
\<close>

theorem empty_chunk_writes_nothing:
  "dump output [] [] w = w \<and>
   [] \<notin> set (emitted (snd (main float strptime strpdate fs a))) \<and>
   written_names (snd (main float strptime strpdate fs a)) =
     map (output_name (arg_output a))
       [0..<length (emitted (snd (main float strptime strpdate fs a)))] \<and>
   (json_load fs (arg_input a) = Some doc \<and> semanticSegments doc = Some segs \<and>
      timeline_path_entries segs = 0 \<longrightarrow>
    emitted (snd (main float strptime strpdate fs a)) = [])"
proof -
  obtain r evs' where m: "main float strptime strpdate fs a = (r, evs')"
    and ne: "[] \<notin> set (emitted evs')"
    and names: "written_names evs' = map (output_name (arg_output a)) [0..<length (emitted evs')]"
    using main_chunks[of float strptime strpdate fs a] by blast
  have "emitted (snd (main float strptime strpdate fs a)) = []"
    if doc: "json_load fs (arg_input a) = Some doc" "semanticSegments doc = Some segs"
      and zero: "timeline_path_entries segs = 0"
  proof (cases "\<not> path_exists fs (arg_output a) \<and> path_exists fs (arg_input a)")
    case False
    then show ?thesis by (auto simp: main_def)
  next
    case True
    then obtain evs1 where e1: "emitted evs1 = []" and
      run: "main float strptime strpdate fs a =
             (case flatten float strptime segs [] evs1 of
                (evs2, Inl err) \<Rightarrow> (Some err, evs2)
              | (evs2, Inr points) \<Rightarrow> sequencer strpdate a points evs2)"
      using main_run[OF _ _ doc, of float strptime strpdate] by blast
    obtain evs2 res where fl: "flatten float strptime segs [] evs1 = (evs2, res)"
      by (cases "flatten float strptime segs [] evs1")
    have e2: "emitted evs2 = []"
      using flatten_emitted[of float strptime segs "[]" evs1] fl e1 by simp
    show ?thesis
    proof (cases res)
      case (Inl err)
      with run fl e2 show ?thesis by simp
    next
      case (Inr unsorted)
      with flatten_length[of float strptime segs "[]" evs1 evs2 unsorted] fl zero
      have "unsorted = []" by simp
      with run fl Inr e2 show ?thesis by (simp add: sequencer_empty)
    qed
  qed
  with m ne names show ?thesis by (simp add: dump_empty)
qed

theorem empty_chunk_writes_nothing_witness:
  "timeline_path_entries (ex_segments []) = 0 \<and> ex_run [] ex_args = (None, ex_prefix 0) \<and>
   emitted (snd (ex_run [] ex_args)) = [] \<and> written_names (snd (ex_run [] ex_args)) = []"
proof -
  have run: "ex_run [] ex_args =
      sequencer ex_strpdate ex_args (map (\<lambda>d. ex_point (int d)) []) (ex_prefix (length ([] :: nat list)))"
    by (rule ex_main) (simp_all add: ex_args_def)
  then have r: "ex_run [] ex_args = (None, ex_prefix 0)"
    by (simp add: sequencer_empty)
  have z: "timeline_path_entries (ex_segments []) = 0"
    by (simp add: timeline_path_entries_def ex_segments_def)
  have "json_load (ex_world []) (arg_input ex_args) = Some \<lparr>semanticSegments = Some (ex_segments [])\<rparr>"
    by (simp add: ex_world_def ex_args_def)
  with z r show ?thesis
    using empty_chunk_writes_nothing[of "arg_output ex_args" "(0, [])" ex_float ex_strptime ex_strpdate
        "ex_world []" ex_args "\<lparr>semanticSegments = Some (ex_segments [])\<rparr>" "ex_segments []"]
    by (auto simp: ex_run_def)
qed

text \<open>
  Claim C2. For every valid input document (the run ends without an exception), when no
  start and no end date filter is set, the point counts of the emitted chunks add up to the
  number of entries of all \<^verbatim>\<open>timelinePath\<close> arrays; a segment without a \<^verbatim>\<open>timelinePath\<close>
  counts zero.
\<close>

theorem point_count_preserved:
  assumes "arg_start a = None" and "arg_end a = None"
    and "\<not> path_exists fs (arg_output a)" and "path_exists fs (arg_input a)"
    and "json_load fs (arg_input a) = Some doc" and "semanticSegments doc = Some segs"
    and "fst (main float strptime strpdate fs a) = None"
  shows "sum_list (map length (emitted (snd (main float strptime strpdate fs a)))) =
           timeline_path_entries segs"
proof -
  obtain evs1 where e1: "emitted evs1 = []" and w1: "written_names evs1 = []" and
    run: "main float strptime strpdate fs a =
           (case flatten float strptime segs [] evs1 of
              (evs2, Inl err) \<Rightarrow> (Some err, evs2)
            | (evs2, Inr points) \<Rightarrow> sequencer strpdate a points evs2)"
    using main_run[OF assms(3-6), of float strptime strpdate] by blast
  obtain evs2 res where fl: "flatten float strptime segs [] evs1 = (evs2, res)"
    by (cases "flatten float strptime segs [] evs1")
  have e2: "emitted evs2 = []"
    using flatten_emitted[of float strptime segs "[]" evs1] fl e1 by simp
  have w2: "written_names evs2 = []"
    using flatten_written_names[of float strptime segs "[]" evs1] fl w1 by simp
  show ?thesis
  proof (cases res)
    case (Inl err)
    with run fl assms(7) show ?thesis by simp
  next
    case (Inr unsorted)
    with run fl have m: "main float strptime strpdate fs a = sequencer strpdate a unsorted evs2"
      by simp
    from sequencer_chunks[OF e2 w2, of strpdate a unsorted] assms(1,2)
    have "concat (emitted (snd (sequencer strpdate a unsorted evs2))) =
        sort_key (\<lambda>x. utc_micros (time x)) unsorted"
      by auto
    then have "length (concat (emitted (snd (main float strptime strpdate fs a)))) = length unsorted"
      by (simp add: m)
    moreover have "length unsorted = timeline_path_entries segs"
      using flatten_length[of float strptime segs "[]" evs1 evs2 unsorted] fl Inr by simp
    ultimately show ?thesis by (simp add: length_concat)
  qed
qed

theorem point_count_preserved_witness:
  "map length (emitted (snd (ex_run [2, 1, 3] (ex_args\<lparr>arg_count := 2\<rparr>)))) = [2, 1] \<and>
   timeline_path_entries (ex_segments [2, 1, 3]) = 3 \<and>
   sum_list (map length (emitted (snd (ex_run [2, 1, 3] (ex_args\<lparr>arg_count := 2\<rparr>))))) =
     timeline_path_entries (ex_segments [2, 1, 3])"
proof -
  have run: "ex_run [2, 1, 3] (ex_args\<lparr>arg_count := 2\<rparr>) =
      sequencer ex_strpdate (ex_args\<lparr>arg_count := 2\<rparr>)
        (map (\<lambda>d. ex_point (int d)) [2, 1, 3]) (ex_prefix (length [2, 1, 3 :: nat]))"
    by (rule ex_main) (simp_all add: ex_args_def)
  have "sequencer ex_strpdate (ex_args\<lparr>arg_count := 2\<rparr>)
        (map (\<lambda>d. ex_point (int d)) [2, 1, 3]) (ex_prefix (length [2, 1, 3 :: nat])) =
      (None, ex_prefix 3 @ dump_gpx [ex_point 1, ex_point 2] ''track_00000.gpx''
               @ dump_gpx [ex_point 3] ''track_00001.gpx'')"
    by code_simp
  with run have r: "ex_run [2, 1, 3] (ex_args\<lparr>arg_count := 2\<rparr>) =
      (None, ex_prefix 3 @ dump_gpx [ex_point 1, ex_point 2] ''track_00000.gpx''
               @ dump_gpx [ex_point 3] ''track_00001.gpx'')"
    by simp
  then have l: "map length (emitted (snd (ex_run [2, 1, 3] (ex_args\<lparr>arg_count := 2\<rparr>)))) = [2, 1]"
    by (simp add: emitted_append emitted_dump_gpx ex_prefix_def)
  have z: "timeline_path_entries (ex_segments [2, 1, 3]) = 3"
    by (simp add: timeline_path_entries_def ex_segments_def)
  have "fst (main ex_float ex_strptime ex_strpdate (ex_world [2, 1, 3]) (ex_args\<lparr>arg_count := 2\<rparr>)) = None"
    using r by (simp add: ex_run_def)
  then have "sum_list (map length (emitted (snd (main ex_float ex_strptime ex_strpdate
        (ex_world [2, 1, 3]) (ex_args\<lparr>arg_count := 2\<rparr>))))) =
      timeline_path_entries (ex_segments [2, 1, 3])"
    using point_count_preserved[of "ex_args\<lparr>arg_count := 2\<rparr>" "ex_world [2, 1, 3]"
        "\<lparr>semanticSegments = Some (ex_segments [2, 1, 3])\<rparr>" "ex_segments [2, 1, 3]"
        ex_float ex_strptime ex_strpdate]
    by (simp add: ex_args_def ex_world_def)
  with l z show ?thesis by (simp add: ex_run_def)
qed

text \<open>
  Claim C3. Every emitted chunk is sorted ascending by the time of its points (the instant
  of the timestamp, as Python compares aware timestamps). When no start and no end date
  filter is set and the flattener yields the point list \<open>unsorted\<close>, the chunks concatenated
  in emission order are the stable sort of \<open>unsorted\<close> by time: sorted, a permutation of
  \<open>unsorted\<close>, and with points of equal time in their original order.
\<close>

theorem chunks_sorted_and_concat:
  "(\<forall>c \<in> set (emitted (snd (main float strptime strpdate fs a))).
      sorted (map (\<lambda>x. utc_micros (time x)) c)) \<and>
   (arg_start a = None \<and> arg_end a = None \<and>
    \<not> path_exists fs (arg_output a) \<and> path_exists fs (arg_input a) \<and>
    json_load fs (arg_input a) = Some doc \<and> semanticSegments doc = Some segs \<and>
    snd (flatten float strptime segs [] []) = Inr unsorted \<longrightarrow>
      concat (emitted (snd (main float strptime strpdate fs a))) =
        sort_key (\<lambda>x. utc_micros (time x)) unsorted \<and>
      sorted (map (\<lambda>x. utc_micros (time x))
        (concat (emitted (snd (main float strptime strpdate fs a))))) \<and>
      mset (concat (emitted (snd (main float strptime strpdate fs a)))) = mset unsorted \<and>
      (\<forall>k. filter (\<lambda>x. utc_micros (time x) = k)
              (concat (emitted (snd (main float strptime strpdate fs a)))) =
            filter (\<lambda>x. utc_micros (time x) = k) unsorted))"
proof -
  have A: "\<forall>c \<in> set (emitted (snd (main float strptime strpdate fs a))).
      sorted (map (\<lambda>x. utc_micros (time x)) c)"
    using main_chunks[of float strptime strpdate fs a] by auto
  have B: "concat (emitted (snd (main float strptime strpdate fs a))) =
        sort_key (\<lambda>x. utc_micros (time x)) unsorted"
    if nf: "arg_start a = None" "arg_end a = None"
      and pre: "\<not> path_exists fs (arg_output a)" "path_exists fs (arg_input a)"
        "json_load fs (arg_input a) = Some doc" "semanticSegments doc = Some segs"
      and fl0: "snd (flatten float strptime segs [] []) = Inr unsorted"
  proof -
    obtain evs1 where e1: "emitted evs1 = []" and w1: "written_names evs1 = []" and
      run: "main float strptime strpdate fs a =
             (case flatten float strptime segs [] evs1 of
                (evs2, Inl err) \<Rightarrow> (Some err, evs2)
              | (evs2, Inr points) \<Rightarrow> sequencer strpdate a points evs2)"
      using main_run[OF pre, of float strptime strpdate] by blast
    obtain evs2 res where fl: "flatten float strptime segs [] evs1 = (evs2, res)"
      by (cases "flatten float strptime segs [] evs1")
    have "res = Inr unsorted"
      using flatten_points_trace[of float strptime segs "[]" evs1 "[]"] fl fl0 by simp
    with run fl have m: "main float strptime strpdate fs a = sequencer strpdate a unsorted evs2"
      by simp
    have e2: "emitted evs2 = []"
      using flatten_emitted[of float strptime segs "[]" evs1] fl e1 by simp
    have w2: "written_names evs2 = []"
      using flatten_written_names[of float strptime segs "[]" evs1] fl w1 by simp
    from sequencer_chunks[OF e2 w2, of strpdate a unsorted] nf
    have "concat (emitted (snd (sequencer strpdate a unsorted evs2))) =
        sort_key (\<lambda>x. utc_micros (time x)) unsorted"
      by auto
    then show ?thesis by (simp add: m)
  qed
  show ?thesis
  proof (intro conjI impI)
    show "\<forall>c \<in> set (emitted (snd (main float strptime strpdate fs a))).
      sorted (map (\<lambda>x. utc_micros (time x)) c)" by (rule A)
  next
    assume h: "arg_start a = None \<and> arg_end a = None \<and>
      \<not> path_exists fs (arg_output a) \<and> path_exists fs (arg_input a) \<and>
      json_load fs (arg_input a) = Some doc \<and> semanticSegments doc = Some segs \<and>
      snd (flatten float strptime segs [] []) = Inr unsorted"
    then have c: "concat (emitted (snd (main float strptime strpdate fs a))) =
        sort_key (\<lambda>x. utc_micros (time x)) unsorted"
      using B by blast
    show "concat (emitted (snd (main float strptime strpdate fs a))) =
        sort_key (\<lambda>x. utc_micros (time x)) unsorted" by (rule c)
    show "sorted (map (\<lambda>x. utc_micros (time x))
        (concat (emitted (snd (main float strptime strpdate fs a)))))"
      by (simp add: c)
    show "mset (concat (emitted (snd (main float strptime strpdate fs a)))) = mset unsorted"
      by (simp add: c)
    show "\<forall>k. filter (\<lambda>x. utc_micros (time x) = k)
              (concat (emitted (snd (main float strptime strpdate fs a)))) =
            filter (\<lambda>x. utc_micros (time x) = k) unsorted"
      by (simp add: c sort_key_stable)
  qed
qed

theorem chunks_sorted_and_concat_witness:
  "emitted (snd (ex_run [2, 1, 3] (ex_args\<lparr>arg_count := 2\<rparr>))) =
     [[ex_point 1, ex_point 2], [ex_point 3]] \<and>
   list_all (\<lambda>c. sorted (map (\<lambda>x. utc_micros (time x)) c))
     (emitted (snd (ex_run [2, 1, 3] (ex_args\<lparr>arg_count := 2\<rparr>)))) \<and>
   concat (emitted (snd (ex_run [2, 1, 3] (ex_args\<lparr>arg_count := 2\<rparr>)))) =
     sort_key (\<lambda>x. utc_micros (time x)) [ex_point 2, ex_point 1, ex_point 3]"
proof -
  have run: "ex_run [2, 1, 3] (ex_args\<lparr>arg_count := 2\<rparr>) =
      sequencer ex_strpdate (ex_args\<lparr>arg_count := 2\<rparr>)
        (map (\<lambda>d. ex_point (int d)) [2, 1, 3]) (ex_prefix (length [2, 1, 3 :: nat]))"
    by (rule ex_main) (simp_all add: ex_args_def)
  have "sequencer ex_strpdate (ex_args\<lparr>arg_count := 2\<rparr>)
        (map (\<lambda>d. ex_point (int d)) [2, 1, 3]) (ex_prefix (length [2, 1, 3 :: nat])) =
      (None, ex_prefix 3 @ dump_gpx [ex_point 1, ex_point 2] ''track_00000.gpx''
               @ dump_gpx [ex_point 3] ''track_00001.gpx'')"
    by code_simp
  with run have e: "emitted (snd (ex_run [2, 1, 3] (ex_args\<lparr>arg_count := 2\<rparr>))) =
      [[ex_point 1, ex_point 2], [ex_point 3]]"
    by (simp add: emitted_append emitted_dump_gpx ex_prefix_def)
  have fl: "snd (flatten ex_float ex_strptime (ex_segments [2, 1, 3]) [] []) =
      Inr [ex_point 2, ex_point 1, ex_point 3]"
    by (simp add: ex_flatten)
  have pre: "arg_start (ex_args\<lparr>arg_count := 2\<rparr>) = None \<and> arg_end (ex_args\<lparr>arg_count := 2\<rparr>) = None \<and>
      \<not> path_exists (ex_world [2, 1, 3]) (arg_output (ex_args\<lparr>arg_count := 2\<rparr>)) \<and>
      path_exists (ex_world [2, 1, 3]) (arg_input (ex_args\<lparr>arg_count := 2\<rparr>)) \<and>
      json_load (ex_world [2, 1, 3]) (arg_input (ex_args\<lparr>arg_count := 2\<rparr>)) =
        Some \<lparr>semanticSegments = Some (ex_segments [2, 1, 3])\<rparr> \<and>
      semanticSegments \<lparr>semanticSegments = Some (ex_segments [2, 1, 3])\<rparr> = Some (ex_segments [2, 1, 3])"
    by (simp add: ex_args_def ex_world_def)
  from pre fl e show ?thesis
    using chunks_sorted_and_concat[of ex_float ex_strptime ex_strpdate "ex_world [2, 1, 3]"
        "ex_args\<lparr>arg_count := 2\<rparr>" "\<lparr>semanticSegments = Some (ex_segments [2, 1, 3])\<rparr>"
        "ex_segments [2, 1, 3]" "[ex_point 2, ex_point 1, ex_point 3]"]
    unfolding ex_run_def[symmetric] list_all_iff
    by blast
qed

text \<open>
  Claim C10. The flattener reads and parses \<^verbatim>\<open>startTime\<close> and \<^verbatim>\<open>endTime\<close> of every segment,
  whether it has a \<^verbatim>\<open>timelinePath\<close> or not: when the document is read and one of its
  segments lacks one of the two fields, or holds a value that \<open>strptime\<close> rejects, the run
  ends with an exception (\<^verbatim>\<open>KeyError\<close> or \<^verbatim>\<open>ValueError\<close>) and writes no file.
\<close>

theorem bad_segment_aborts:
  assumes "\<not> path_exists fs (arg_output a)" and "path_exists fs (arg_input a)"
    and "json_load fs (arg_input a) = Some doc" and "semanticSegments doc = Some segs"
    and "seg \<in> set segs" and "\<not> times_parse strptime seg"
  shows "(fst (main float strptime strpdate fs a) = Some KeyError \<or>
          fst (main float strptime strpdate fs a) = Some ValueError) \<and>
         emitted (snd (main float strptime strpdate fs a)) = []"
proof -
  obtain evs1 where e1: "emitted evs1 = []" and
    run: "main float strptime strpdate fs a =
           (case flatten float strptime segs [] evs1 of
              (evs2, Inl err) \<Rightarrow> (Some err, evs2)
            | (evs2, Inr points) \<Rightarrow> sequencer strpdate a points evs2)"
    using main_run[OF assms(1-4), of float strptime strpdate] by blast
  obtain evs2 e where fl: "flatten float strptime segs [] evs1 = (evs2, Inl e)"
    using flatten_bad_segment[OF assms(5,6), of float "[]" evs1] by blast
  have "emitted evs2 = []"
    using flatten_emitted[of float strptime segs "[]" evs1] fl e1 by simp
  moreover have "e = KeyError \<or> e = ValueError"
    using flatten_error_kind[OF fl] .
  ultimately show ?thesis using run fl by auto
qed

theorem bad_segment_aborts_witness:
  "\<not> times_parse ex_strptime
      \<lparr>startTime = Some (ex_stamp 2), endTime = Some (ascii ''yesterday''), timelinePath = None\<rparr> \<and>
   fst (main ex_float ex_strptime ex_strpdate
     \<lparr>path_exists = (\<lambda>p. p = ''timeline.json''),
      json_load = (\<lambda>p. Some \<lparr>semanticSegments = Some
        [\<lparr>startTime = Some (ex_stamp 1), endTime = Some (ex_stamp 1), timelinePath = None\<rparr>,
         \<lparr>startTime = Some (ex_stamp 2), endTime = Some (ascii ''yesterday''),
          timelinePath = None\<rparr>]\<rparr>)\<rparr>
     ex_args) = Some ValueError \<and>
   emitted (snd (main ex_float ex_strptime ex_strpdate
     \<lparr>path_exists = (\<lambda>p. p = ''timeline.json''),
      json_load = (\<lambda>p. Some \<lparr>semanticSegments = Some
        [\<lparr>startTime = Some (ex_stamp 1), endTime = Some (ex_stamp 1), timelinePath = None\<rparr>,
         \<lparr>startTime = Some (ex_stamp 2), endTime = Some (ascii ''yesterday''),
          timelinePath = None\<rparr>]\<rparr>)\<rparr>
     ex_args)) = []"
proof -
  have bad: "ex_strptime (ascii ''yesterday'') = None"
    by (simp add: ex_strptime_def ascii_def)
  then have np: "\<not> times_parse ex_strptime
      \<lparr>startTime = Some (ex_stamp 2), endTime = Some (ascii ''yesterday''), timelinePath = None\<rparr>"
    by (simp add: times_parse_def)
  have ev: "fst (main ex_float ex_strptime ex_strpdate
     \<lparr>path_exists = (\<lambda>p. p = ''timeline.json''),
      json_load = (\<lambda>p. Some \<lparr>semanticSegments = Some
        [\<lparr>startTime = Some (ex_stamp 1), endTime = Some (ex_stamp 1), timelinePath = None\<rparr>,
         \<lparr>startTime = Some (ex_stamp 2), endTime = Some (ascii ''yesterday''),
          timelinePath = None\<rparr>]\<rparr>)\<rparr>
     ex_args) = Some ValueError"
    by (simp add: main_def ex_args_def ex_strptime_stamp bad)
  from np ev show ?thesis
    using bad_segment_aborts[of
        "\<lparr>path_exists = (\<lambda>p. p = ''timeline.json''),
          json_load = (\<lambda>p. Some \<lparr>semanticSegments = Some
            [\<lparr>startTime = Some (ex_stamp 1), endTime = Some (ex_stamp 1), timelinePath = None\<rparr>,
             \<lparr>startTime = Some (ex_stamp 2), endTime = Some (ascii ''yesterday''),
              timelinePath = None\<rparr>]\<rparr>)\<rparr>"
        ex_args
        "\<lparr>semanticSegments = Some
            [\<lparr>startTime = Some (ex_stamp 1), endTime = Some (ex_stamp 1), timelinePath = None\<rparr>,
             \<lparr>startTime = Some (ex_stamp 2), endTime = Some (ascii ''yesterday''),
              timelinePath = None\<rparr>]\<rparr>"
        "[\<lparr>startTime = Some (ex_stamp 1), endTime = Some (ex_stamp 1), timelinePath = None\<rparr>,
          \<lparr>startTime = Some (ex_stamp 2), endTime = Some (ascii ''yesterday''),
           timelinePath = None\<rparr>]"
        "\<lparr>startTime = Some (ex_stamp 2), endTime = Some (ascii ''yesterday''), timelinePath = None\<rparr>"
        ex_strptime ex_float ex_strpdate]
    by (simp add: ex_args_def)
qed

text \<open>
  Claim C9. Coordinate parsing removes the degree marker (the string literal of the source,
  the code points U+00C2 U+00B0) from the raw string, splits the rest at commas, and trims
  and parses both parts with \<open>float\<close>. It returns \<open>(x, y)\<close> exactly when the stripped string
  is \<open>lat , lng\<close> with no comma in \<open>lat\<close> and \<open>lng\<close> and \<open>float\<close> accepts both trimmed parts
  with results \<open>x\<close> and \<open>y\<close>; for every other input it fails with \<^verbatim>\<open>ValueError\<close>. The removal
  of the marker distributes over every occurrence of it.
\<close>

theorem split_latlng_spec:
  "(split_latlng float latlng = Inr (x, y) \<longleftrightarrow>
      (\<exists>lat lng. replace latlng degree_marker [] = lat @ comma # lng \<and>
         comma \<notin> set lat \<and> comma \<notin> set lng \<and>
         float (strip lat) = Some x \<and> float (strip lng) = Some y)) \<and>
   (split_latlng float latlng = Inl ValueError \<or>
      (\<exists>x' y'. split_latlng float latlng = Inr (x', y'))) \<and>
   replace (u @ degree_marker @ v) degree_marker [] =
     replace u degree_marker [] @ replace v degree_marker []"
proof (intro conjI)
  show "split_latlng float latlng = Inr (x, y) \<longleftrightarrow>
      (\<exists>lat lng. replace latlng degree_marker [] = lat @ comma # lng \<and>
         comma \<notin> set lat \<and> comma \<notin> set lng \<and>
         float (strip lat) = Some x \<and> float (strip lng) = Some y)"
  proof
    assume ok: "split_latlng float latlng = Inr (x, y)"
    then obtain lat lng where sp: "split (replace latlng degree_marker []) comma = [lat, lng]"
      and fl: "float (strip lat) = Some x" "float (strip lng) = Some y"
      by (auto simp: split_latlng_def split: list.splits option.splits)
    from split_two[OF sp] fl show "\<exists>lat lng. replace latlng degree_marker [] = lat @ comma # lng \<and>
         comma \<notin> set lat \<and> comma \<notin> set lng \<and>
         float (strip lat) = Some x \<and> float (strip lng) = Some y"
      by blast
  next
    assume "\<exists>lat lng. replace latlng degree_marker [] = lat @ comma # lng \<and>
         comma \<notin> set lat \<and> comma \<notin> set lng \<and>
         float (strip lat) = Some x \<and> float (strip lng) = Some y"
    then obtain lat lng where r: "replace latlng degree_marker [] = lat @ comma # lng"
      "comma \<notin> set lat" "comma \<notin> set lng"
      and fl: "float (strip lat) = Some x" "float (strip lng) = Some y"
      by blast
    from r have "split (replace latlng degree_marker []) comma = [lat, lng]"
      by (simp add: split_two_iff)
    with fl show "split_latlng float latlng = Inr (x, y)"
      by (simp add: split_latlng_def)
  qed
next
  show "split_latlng float latlng = Inl ValueError \<or>
      (\<exists>x' y'. split_latlng float latlng = Inr (x', y'))"
    by (auto simp: split_latlng_def split: list.splits option.splits)
next
  show "replace (u @ degree_marker @ v) degree_marker [] =
     replace u degree_marker [] @ replace v degree_marker []"
    by (rule replace_marker_append)
qed

theorem split_latlng_spec_witness:
  "replace ex_coord degree_marker [] = ascii ''48.1, 11.5'' \<and>
   split_latlng ex_float ex_coord = Inr (ascii ''48.1'', ascii ''11.5'') \<and>
   split_latlng ex_float (ascii ''48.1'') = Inl ValueError \<and>
   split_latlng ex_float (ascii ''48.1, 11.5, 7'') = Inl ValueError \<and>
   split_latlng ex_float (ascii ''north, 11.5'') = Inl ValueError"
proof -
  have r: "replace ex_coord degree_marker [] = ascii ''48.1'' @ comma # ascii '' 11.5''"
    by (simp add: ex_coord_def degree_marker_def ascii_def comma_def)
  have c: "comma \<notin> set (ascii ''48.1'')" "comma \<notin> set (ascii '' 11.5'')"
    by (simp_all add: ascii_def comma_def)
  have f: "ex_float (strip (ascii ''48.1'')) = Some (ascii ''48.1'')"
    "ex_float (strip (ascii '' 11.5'')) = Some (ascii ''11.5'')"
    by (simp_all add: ex_float_def strip_def isspace_def ascii_def)
  have ok: "split_latlng ex_float ex_coord = Inr (ascii ''48.1'', ascii ''11.5'')"
    using split_latlng_spec[of ex_float ex_coord "ascii ''48.1''" "ascii ''11.5''" "[]" "[]"] r c f
    by blast
  have e1: "split_latlng ex_float (ascii ''48.1'') = Inl ValueError"
    by (simp add: split_latlng_def ascii_def degree_marker_def comma_def)
  have e2: "split_latlng ex_float (ascii ''48.1, 11.5, 7'') = Inl ValueError"
    by (simp add: split_latlng_def ascii_def degree_marker_def comma_def)
  have e3: "split_latlng ex_float (ascii ''north, 11.5'') = Inl ValueError"
    by (simp add: split_latlng_def ascii_def degree_marker_def comma_def strip_def isspace_def
        ex_float_def)
  from r ok e1 e2 e3 show ?thesis by (simp add: ascii_def comma_def)
qed

end
